theory Spec2Isabelle
  imports Main "HOL-Library.Multiset" "HOL-Library.AList" "HOL-Library.Char_ord" "HOL-Library.List_Lexorder"
begin

section \<open>Data model\<close>

text \<open>
  The program is \<^verbatim>\<open>main.go\<close> of prometheus-unified-exporter; its module file declares
  \<^verbatim>\<open>go 1.20\<close>.  The protobuf types of \<^verbatim>\<open>client_model\<close> hold their strings behind
  pointers: a \<^verbatim>\<open>dto.LabelPair\<close> is a pair of \<^verbatim>\<open>*string\<close>.  String cells therefore live in
  an explicit store, a list of strings addressed by position; allocation appends a cell.
\<close>

type_synonym addr = nat
type_synonym heap = "string list"

record LabelPair =
  lpName :: addr
  lpValue :: addr

text \<open>
  A \<^verbatim>\<open>dto.Metric\<close>: its label slice, and everything else of the sample (value, timestamp),
  which the program never reads or writes, as one opaque field.
\<close>

record Metric =
  Label :: "LabelPair list"
  Sample :: string

text \<open>
  Modelled from the spec: the type tag of a family (counter, gauge, histogram, summary,
  untyped); the enumeration itself is declared in \<^verbatim>\<open>client_model\<close>.
\<close>

datatype MetricType = COUNTER | GAUGE | HISTOGRAM | SUMMARY | UNTYPED

record MetricFamily =
  Name :: string
  Help :: string
  Type :: MetricType
  Metric :: "Metric list"

text \<open>
  A Go map is given by its entries in the order in which a \<^verbatim>\<open>range\<close> statement visits them;
  the keys of one map are pairwise distinct.  The visiting order is not fixed by the
  language, so every statement about a map is made for every such listing.
\<close>

type_synonym Families = "(string \<times> MetricFamily) list"
type_synonym LabelSet = "(string \<times> string) list"

text \<open>The (name, value) pairs that a sample's label slice denotes in a store.\<close>

definition labelsOf :: "heap \<Rightarrow> Metric \<Rightarrow> (string \<times> string) list" where
  "labelsOf h m = map (\<lambda>p. (h ! lpName p, h ! lpValue p)) (Label m)"

section \<open>Label injection\<close>

text \<open>
  The innermost loop of \<^verbatim>\<open>addLabels\<close>,
  \<^verbatim>\<open>for labelName, labelValue := range labels { m.Label = append(m.Label, &dto.LabelPair{Name: &labelName, Value: &labelValue}) }\<close>.
  Under the language version of the module the two iteration variables are declared once
  per execution of the statement and re-used in each iteration; their addresses
  \<open>pn\<close> and \<open>pv\<close> are what every appended pair stores.
\<close>

fun rangeLabels :: "addr \<Rightarrow> addr \<Rightarrow> LabelSet \<Rightarrow> heap \<times> LabelPair list \<Rightarrow> heap \<times> LabelPair list" where
  "rangeLabels pn pv [] (h, ls) = (h, ls)"
| "rangeLabels pn pv ((k, v) # kvs) (h, ls) =
     rangeLabels pn pv kvs (h[pn := k, pv := v], ls @ [\<lparr>lpName = pn, lpValue = pv\<rparr>])"

text \<open>
  One execution of that statement for the sample \<open>m\<close>: the two variables are allocated
  (zero-valued) and the loop runs over the label set in the order \<open>kvs\<close>.
\<close>

definition addLabelsMetric :: "LabelSet \<Rightarrow> heap \<Rightarrow> Metric \<Rightarrow> heap \<times> Metric" where
  "addLabelsMetric kvs h m =
     (let pn = length h; pv = Suc (length h);
          (h', ls) = rangeLabels pn pv kvs (h @ ['''', ''''], Label m)
      in (h', m\<lparr>Label := ls\<rparr>))"

text \<open>
  \<^verbatim>\<open>for _, m := range mf.Metric\<close>.  Every execution of the inner statement may visit the
  label set in another order: \<open>vis c labels\<close> is the order in which the \<open>c\<close>-th execution
  visits \<open>labels\<close>, a rearrangement of its entries.
\<close>

type_synonym visiting = "nat \<Rightarrow> LabelSet \<Rightarrow> LabelSet"

fun addLabelsMetrics :: "visiting \<Rightarrow> LabelSet \<Rightarrow> nat \<times> heap \<Rightarrow> Metric list \<Rightarrow> (nat \<times> heap) \<times> Metric list" where
  "addLabelsMetrics vis labels (c, h) [] = ((c, h), [])"
| "addLabelsMetrics vis labels (c, h) (m # ms) =
     (let (h1, m') = addLabelsMetric (vis c labels) h m;
          (s, ms') = addLabelsMetrics vis labels (Suc c, h1) ms
      in (s, m' # ms'))"

text \<open>\<^verbatim>\<open>for _, mf := range metrics\<close>.\<close>

fun addLabelsFamilies :: "visiting \<Rightarrow> LabelSet \<Rightarrow> nat \<times> heap \<Rightarrow> Families \<Rightarrow> (nat \<times> heap) \<times> Families" where
  "addLabelsFamilies vis labels s [] = (s, [])"
| "addLabelsFamilies vis labels s ((n, mf) # fs) =
     (let (s1, ms') = addLabelsMetrics vis labels s (Metric mf);
          (s2, fs') = addLabelsFamilies vis labels s1 fs
      in (s2, (n, mf\<lparr>Metric := ms'\<rparr>) # fs'))"

text \<open>
  \<^verbatim>\<open>addLabels(metrics, labels)\<close>.  \<open>None\<close> is the nil map, over which \<^verbatim>\<open>range\<close> runs no
  iteration.  The families are changed in place; the changed map is the second component.
\<close>

definition addLabels :: "visiting \<Rightarrow> heap \<Rightarrow> Families option \<Rightarrow> LabelSet \<Rightarrow> heap \<times> Families option" where
  "addLabels vis h metrics labels =
     (case metrics of
        None \<Rightarrow> (h, None)
      | Some fs \<Rightarrow> (let (s, fs') = addLabelsFamilies vis labels (0, h) fs in (snd s, Some fs')))"

text \<open>The label pairs of every sample of every family, read through the store.\<close>

definition familyLabels :: "heap \<Rightarrow> Families \<Rightarrow> (string \<times> (string \<times> string) list list) list" where
  "familyLabels h fs = map (\<lambda>e. (fst e, map (labelsOf h) (Metric (snd e)))) fs"

section \<open>Fetching\<close>

text \<open>
  What the HTTP client returns for one target: \<^verbatim>\<open>http.Get\<close> fails, or it returns a response
  with a status code whose body \<^verbatim>\<open>ioutil.ReadAll\<close> fails to read or reads in full.
\<close>

datatype BodyRead = ReadFailed string | Body string
datatype HttpResult = TransportError string | Response nat BodyRead

text \<open>
  \<^verbatim>\<open>TextParser.TextToMetricFamilies\<close> of the codec is a parameter: it maps a body to a
  family map and an error, either of which may be nil.  The strings of the pairs it builds
  are cells of the store the request starts with.
\<close>

type_synonym decoder = "string \<Rightarrow> Families option \<times> string option"

definition fetchMetrics :: "decoder \<Rightarrow> HttpResult \<Rightarrow> Families option \<times> string option" where
  "fetchMetrics dec r =
     (case r of
        TransportError e \<Rightarrow> (None, Some e)
      | Response code rd \<Rightarrow>
          (case rd of
             ReadFailed e \<Rightarrow> (None, Some e)
           | Body b \<Rightarrow> dec b))"

record Target =
  URL :: string
  Labels :: LabelSet

text \<open>
  The body of the goroutine started for a target: fetch, log an error, inject the labels
  into whatever map the fetch returned, and (deferred) send that map.  The result is the
  store, the lines logged and the value sent.
\<close>

definition fetchTask :: "decoder \<Rightarrow> visiting \<Rightarrow> heap \<Rightarrow> Target \<Rightarrow> HttpResult \<Rightarrow> heap \<times> string list \<times> Families option" where
  "fetchTask dec vis h t r =
     (let (metricFamilies, err) = fetchMetrics dec r;
          lg = (case err of
                  Some e \<Rightarrow> [''failed to fetch metrics from '' @ URL t @ '': '' @ e]
                | None \<Rightarrow> []);
          (h', sent) = addLabels vis h metricFamilies (Labels t)
      in (h', lg, sent))"

section \<open>Aggregation\<close>

text \<open>The entries a \<^verbatim>\<open>range\<close> over a received map visits; none for the nil map.\<close>

definition rangeOf :: "Families option \<Rightarrow> Families" where
  "rangeOf r = (case r of None \<Rightarrow> [] | Some fs \<Rightarrow> fs)"

text \<open>
  The body of the inner loop of \<^verbatim>\<open>handleMetrics\<close>: the accumulator is looked up under the
  key \<open>n\<close> of the received map, and a family not found is stored under its own name.
\<close>

definition mergeFamily :: "Families \<Rightarrow> string \<times> MetricFamily \<Rightarrow> Families" where
  "mergeFamily allMetricsFamilies e =
     (case map_of allMetricsFamilies (fst e) of
        Some amf \<Rightarrow>
          AList.update (fst e) (amf\<lparr>Metric := Metric amf @ Metric (snd e)\<rparr>) allMetricsFamilies
      | None \<Rightarrow> AList.update (Name (snd e)) (snd e) allMetricsFamilies)"

definition mergeResult :: "Families \<Rightarrow> Families option \<Rightarrow> Families" where
  "mergeResult allMetricsFamilies r = foldl mergeFamily allMetricsFamilies (rangeOf r)"

text \<open>The outer loop, over the values in the order they are received from the channel.\<close>

definition aggregate :: "Families option list \<Rightarrow> Families" where
  "aggregate received = foldl mergeResult [] received"

section \<open>Serialization\<close>

text \<open>
  \<^verbatim>\<open>Encoder.Encode\<close> of the codec is a parameter: for a family it yields the bytes it wrote
  and an error, nil on success.
\<close>

type_synonym encoder = "MetricFamily \<Rightarrow> string \<times> string option"

text \<open>
  The encoding loop of \<^verbatim>\<open>serializeMetrics\<close>.  The result lists every family handed to
  \<^verbatim>\<open>Encode\<close> with the bytes written for it, in call order, and the error returned.
\<close>

fun encodeLoop :: "encoder \<Rightarrow> MetricFamily list \<Rightarrow> (MetricFamily \<times> string) list \<times> string option" where
  "encodeLoop enc [] = ([], None)"
| "encodeLoop enc (mf # lst) =
     (case enc mf of
        (bs, Some err) \<Rightarrow> ([(mf, bs)], Some err)
      | (bs, None) \<Rightarrow> (let (out, r) = encodeLoop enc lst in ((mf, bs) # out, r)))"

text \<open>
  \<^verbatim>\<open>serializeMetrics\<close>: the values of the map in visiting order, sorted by
  \<^verbatim>\<open>*lst[i].Name < *lst[j].Name\<close> (byte-wise comparison of strings), then encoded.
  \<^verbatim>\<open>sort.Slice\<close> is taken as \<open>sort_key\<close>; lemma \<open>sortSlice_unique\<close> below shows that for
  pairwise distinct names every ordered rearrangement is this one.
\<close>

definition serializeMetrics :: "encoder \<Rightarrow> Families \<Rightarrow> (MetricFamily \<times> string) list \<times> string option" where
  "serializeMetrics enc metricFamilies = encodeLoop enc (sort_key Name (map snd metricFamilies))"

section \<open>The handler\<close>

text \<open>
  What the scraper gets and what is logged.  \<^verbatim>\<open>handleMetrics\<close> never calls
  \<^verbatim>\<open>WriteHeader\<close>, so the status is the 200 that \<^verbatim>\<open>net/http\<close> sends by default; the body
  is what the encoder wrote.
\<close>

record Reply =
  status :: nat
  body :: string
  logged :: "string list"

text \<open>
  The end of \<^verbatim>\<open>handleMetrics\<close>: the merged map is serialized into the response and an
  error is logged.
\<close>

definition respond :: "encoder \<Rightarrow> Families \<Rightarrow> Reply" where
  "respond enc allMetricsFamilies =
     (let (out, err) = serializeMetrics enc allMetricsFamilies
      in \<lparr>status = 200,
          body = concat (map snd out),
          logged = (case err of
                      Some e \<Rightarrow> [''failed to serialize metrics: '' @ e]
                    | None \<Rightarrow> [])\<rparr>)"

text \<open>
  \<^verbatim>\<open>handleMetrics\<close> as a function of the values it receives from the channel, in the
  order received.  The next section has the goroutines and the channel themselves.
\<close>

definition handleMetrics :: "encoder \<Rightarrow> Families option list \<Rightarrow> Reply" where
  "handleMetrics enc received = respond enc (aggregate received)"

section \<open>Fan-out and fan-in\<close>

text \<open>
  The goroutine of a target: not yet started by the \<^verbatim>\<open>go\<close> statement; running its body;
  body done, with the deferred send of its value pending; exited after the send.
\<close>

datatype Task = Unstarted | Running | Sending "Families option" | Exited

text \<open>
  The handler: in the first loop with so many goroutines started; in the second loop with
  so many values received and the accumulator \<^verbatim>\<open>allMetricsFamilies\<close>; returned.
\<close>

datatype Handler = Starting nat | Receiving nat Families | Replied Reply

datatype Thread = HandlerThread | TaskThread nat

text \<open>
  The state of one request.  \<open>chan\<close> is the buffer of the channel, oldest value first, and
  \<open>capacity\<close> its size.  \<open>sent\<close> counts the sends each goroutine has performed and \<open>got\<close>
  lists the values received so far; the program keeps neither, they are there to be
  talked about.
\<close>

record System =
  store :: heap
  tasks :: "Task list"
  chan :: "Families option list"
  capacity :: nat
  sent :: "nat list"
  got :: "Families option list"
  handler :: Handler
  lines :: "string list"

text \<open>
  On entry, after \<^verbatim>\<open>make(chan map[string]*dto.MetricFamily, len(cfg.Targets))\<close>, for \<open>n\<close>
  configured targets.
\<close>

definition initial :: "heap \<Rightarrow> nat \<Rightarrow> System" where
  "initial h n =
     \<lparr>store = h, tasks = replicate n Unstarted, chan = [], capacity = n,
      sent = replicate n 0, got = [], handler = Starting 0, lines = []\<rparr>"

text \<open>
  The next step of the handler for \<open>n\<close> targets: start the next goroutine; leave the first
  loop with an empty accumulator; receive a value and merge it (blocked, \<open>None\<close>, while the
  buffer is empty); leave the second loop, serialize and return.
\<close>

definition handlerStep :: "encoder \<Rightarrow> nat \<Rightarrow> System \<Rightarrow> System option" where
  "handlerStep enc n s =
     (case handler s of
        Starting k \<Rightarrow>
          if k < n then Some (s\<lparr>tasks := (tasks s)[k := Running], handler := Starting (Suc k)\<rparr>)
          else Some (s\<lparr>handler := Receiving 0 []\<rparr>)
      | Receiving k allMetricsFamilies \<Rightarrow>
          if k < n then
            (case chan s of
               [] \<Rightarrow> None
             | v # rest \<Rightarrow>
                 Some (s\<lparr>chan := rest, got := got s @ [v],
                         handler := Receiving (Suc k) (mergeResult allMetricsFamilies v)\<rparr>))
          else Some (s\<lparr>handler := Replied (respond enc allMetricsFamilies),
                       lines := lines s @ logged (respond enc allMetricsFamilies)\<rparr>)
      | Replied r \<Rightarrow> None)"

text \<open>
  The next step of the goroutine of target \<open>i\<close>: run the body up to the deferred call;
  perform the send (blocked, \<open>None\<close>, while the buffer is full) and exit.  \<open>ts\<close> lists the
  configured targets, each with what the HTTP client returns for it in this request.
\<close>

definition taskStep :: "decoder \<Rightarrow> visiting \<Rightarrow> (Target \<times> HttpResult) list \<Rightarrow> nat \<Rightarrow> System \<Rightarrow> System option" where
  "taskStep dec vis ts i s =
     (if i < length ts then
        (case tasks s ! i of
           Unstarted \<Rightarrow> None
         | Running \<Rightarrow>
             (let (h', lg, v) = fetchTask dec vis (store s) (fst (ts ! i)) (snd (ts ! i))
              in Some (s\<lparr>store := h', tasks := (tasks s)[i := Sending v],
                         lines := lines s @ lg\<rparr>))
         | Sending v \<Rightarrow>
             if length (chan s) < capacity s then
               Some (s\<lparr>chan := chan s @ [v], tasks := (tasks s)[i := Exited],
                       sent := (sent s)[i := Suc (sent s ! i)]\<rparr>)
             else None
         | Exited \<Rightarrow> None)
      else None)"

fun fire :: "decoder \<Rightarrow> visiting \<Rightarrow> encoder \<Rightarrow> (Target \<times> HttpResult) list \<Rightarrow> Thread \<Rightarrow> System \<Rightarrow> System option" where
  "fire dec vis enc ts HandlerThread s = handlerStep enc (length ts) s"
| "fire dec vis enc ts (TaskThread i) s = taskStep dec vis ts i s"

text \<open>
  A schedule names the thread that takes each next step; \<open>exec\<close> runs it, and is \<open>None\<close>
  when the schedule picks a thread that cannot step.
\<close>

fun exec :: "decoder \<Rightarrow> visiting \<Rightarrow> encoder \<Rightarrow> (Target \<times> HttpResult) list \<Rightarrow> Thread list \<Rightarrow> System \<Rightarrow> System option" where
  "exec dec vis enc ts [] s = Some s"
| "exec dec vis enc ts (th # sched) s =
     (case fire dec vis enc ts th s of
        None \<Rightarrow> None
      | Some s' \<Rightarrow> exec dec vis enc ts sched s')"

section \<open>Notions used in the statements\<close>

text \<open>The samples stored under a family name in a map; none when the name is absent.\<close>

definition samplesOf :: "Families \<Rightarrow> string \<Rightarrow> Metric list" where
  "samplesOf fs n = (case map_of fs n of Some mf \<Rightarrow> Metric mf | None \<Rightarrow> [])"

definition sampleCount :: "Families \<Rightarrow> string \<Rightarrow> nat" where
  "sampleCount fs n = length (samplesOf fs n)"

text \<open>
  A map as the decoder builds it and as the accumulator of \<^verbatim>\<open>handleMetrics\<close> keeps it: its
  keys are pairwise distinct (it is a map) and every family is stored under its own name.
\<close>

definition keyed :: "Families \<Rightarrow> bool" where
  "keyed fs = (distinct (map fst fs) \<and> list_all (\<lambda>e. Name (snd e) = fst e) fs)"

definition wfResult :: "Families option \<Rightarrow> bool" where
  "wfResult r = keyed (rangeOf r)"


text \<open>The encoder accepts a family: \<^verbatim>\<open>Encode\<close> returns a nil error for it.\<close>

definition accepted :: "encoder \<Rightarrow> MetricFamily \<Rightarrow> bool" where
  "accepted enc mf = (snd (enc mf) = None)"

text \<open>
  What holds in every state a request can reach, for \<open>n\<close> targets: the bookkeeping has
  one entry per target and the channel the size set on entry; a goroutine has sent once
  if it has exited and not at all otherwise; every value sent is in the buffer or has
  been received; the handler has started the goroutines below its counter, has merged
  exactly the values received, and replies with what they serialize to.
\<close>

definition consistent :: "encoder \<Rightarrow> nat \<Rightarrow> System \<Rightarrow> bool" where
  "consistent enc n s =
     (length (tasks s) = n \<and> length (sent s) = n \<and> capacity s = n
      \<and> (\<forall>i<n. sent s ! i = (if tasks s ! i = Exited then 1 else 0))
      \<and> sum_list (sent s) = length (chan s) + length (got s)
      \<and> (case handler s of
            Starting k \<Rightarrow> k \<le> n \<and> got s = [] \<and> (\<forall>i<n. (tasks s ! i = Unstarted) = (k \<le> i))
          | Receiving k acc \<Rightarrow>
              k \<le> n \<and> k = length (got s) \<and> acc = aggregate (got s)
              \<and> (\<forall>i<n. tasks s ! i \<noteq> Unstarted)
          | Replied r \<Rightarrow>
              length (got s) = n \<and> r = handleMetrics enc (got s)
              \<and> (\<forall>i<n. tasks s ! i \<noteq> Unstarted)))"

section \<open>Inputs for the evaluations below\<close>

text \<open>Two visiting orders: the entries as listed, and in reverse.\<close>

definition visitAsListed :: visiting where
  "visitAsListed c labels = labels"

definition visitReversed :: visiting where
  "visitReversed c labels = rev labels"

text \<open>A family \<open>up\<close> with one sample carrying the given label pairs.\<close>

definition exampleFamily :: "LabelPair list \<Rightarrow> MetricFamily" where
  "exampleFamily ls =
     \<lparr>Name = ''up'', Help = '''', Type = UNTYPED, Metric = [\<lparr>Label = ls, Sample = ''1''\<rparr>]\<rparr>"

text \<open>The label pairs read off every sample after \<^verbatim>\<open>addLabels\<close> has run.\<close>

definition labelsAfter :: "visiting \<Rightarrow> heap \<Rightarrow> Families option \<Rightarrow> LabelSet \<Rightarrow> (string \<times> (string \<times> string) list list) list" where
  "labelsAfter vis h metrics labels =
     (let (h', r) = addLabels vis h metrics labels in familyLabels h' (rangeOf r))"

text \<open>
  A decoder that knows the body \<^verbatim>\<open>up 1\<close>; on \<^verbatim>\<open>up 1 ?\<close> it fails after the first sample
  and returns the map built so far with its error; on any other body it fails with an
  empty map.  An encoder that writes a family's name and rejects a family without samples.
\<close>

definition exampleDecoder :: decoder where
  "exampleDecoder b =
     (if b = ''up 1'' then (Some [(''up'', exampleFamily [])], None)
      else if b = ''up 1 ?'' then
        (Some [(''up'', exampleFamily [])], Some ''text format parsing error'')
      else (Some [], Some ''text format parsing error''))"

definition exampleEncoder :: encoder where
  "exampleEncoder mf =
     (if Metric mf = [] then ([], Some ''MetricFamily has no metrics'')
      else (Name mf @ '' 1;'', None))"

text \<open>
  Two configured targets with what the HTTP client returns for them: the first answers
  \<^verbatim>\<open>up 1\<close>, the second cannot be reached.  Then three states of a request over them: the
  first goroutine about to send; the first value received and merged while the second
  goroutine is still running; the handler returned.
\<close>

definition exampleTargets :: "(Target \<times> HttpResult) list" where
  "exampleTargets =
     [(\<lparr>URL = ''http://a/metrics'', Labels = [(''env'', ''prod'')]\<rparr>, Response 200 (Body ''up 1'')),
      (\<lparr>URL = ''http://b/metrics'', Labels = [(''env'', ''dev'')]\<rparr>, TransportError ''refused'')]"

definition examplePending :: System where
  "examplePending =
     \<lparr>store = [''env'', ''prod''],
      tasks = [Sending (Some [(''up'', exampleFamily [\<lparr>lpName = 0, lpValue = 1\<rparr>])]), Running],
      chan = [], capacity = 2, sent = [0, 0], got = [],
      handler = Receiving 0 [], lines = []\<rparr>"



section \<open>Properties of label injection\<close>

lemma rangeLabels_length:
  "length (fst (rangeLabels pn pv kvs (h, ls))) = length h"
  by (induction kvs arbitrary: h ls) auto

lemma rangeLabels_pairs:
  "snd (rangeLabels pn pv kvs (h, ls)) = ls @ replicate (length kvs) \<lparr>lpName = pn, lpValue = pv\<rparr>"
  by (induction kvs arbitrary: h ls) (auto simp: replicate_app_Cons_same)

lemma rangeLabels_other_cells:
  "a \<noteq> pn \<Longrightarrow> a \<noteq> pv \<Longrightarrow> fst (rangeLabels pn pv kvs (h, ls)) ! a = h ! a"
  by (induction kvs arbitrary: h ls) auto

lemma rangeLabels_cells:
  "kvs \<noteq> [] \<Longrightarrow> pn \<noteq> pv \<Longrightarrow> pn < length h \<Longrightarrow> pv < length h \<Longrightarrow>
   fst (rangeLabels pn pv kvs (h, ls)) ! pn = fst (last kvs) \<and>
   fst (rangeLabels pn pv kvs (h, ls)) ! pv = snd (last kvs)"
proof (induction kvs arbitrary: h ls)
  case Nil
  then show ?case by simp
next
  case (Cons kv kvs)
  obtain k v where kv: "kv = (k, v)" by (cases kv)
  show ?case
  proof (cases "kvs = []")
    case True
    with Cons.prems kv show ?thesis by simp
  next
    case False
    with Cons.IH [of "h[pn := k, pv := v]"] Cons.prems kv show ?thesis by simp
  qed
qed

text \<open>
  What one execution of the inner statement leaves on a sample whose pairs point into the
  store: the original pairs, then as many pairs as the label set has entries, every one of
  them reading the entry visited last.
\<close>

lemma addLabelsMetric_labelsOf:
  assumes "kvs \<noteq> []"
    and "\<forall>p \<in> set (Label m). lpName p < length h \<and> lpValue p < length h"
  shows "labelsOf (fst (addLabelsMetric kvs h m)) (snd (addLabelsMetric kvs h m)) =
         labelsOf h m @ replicate (length kvs) (last kvs)"
proof -
  let ?pn = "length h" and ?pv = "Suc (length h)"
  let ?h0 = "h @ ['''', '''']"
  let ?r = "rangeLabels ?pn ?pv kvs (?h0, Label m)"
  have res: "addLabelsMetric kvs h m = (fst ?r, m\<lparr>Label := snd ?r\<rparr>)"
    by (simp add: addLabelsMetric_def Let_def case_prod_beta)
  have cells: "fst ?r ! ?pn = fst (last kvs) \<and> fst ?r ! ?pv = snd (last kvs)"
    using assms(1) by (intro rangeLabels_cells) simp_all
  have old: "(fst ?r ! lpName p, fst ?r ! lpValue p) = (h ! lpName p, h ! lpValue p)"
    if "p \<in> set (Label m)" for p
  proof -
    from that assms(2) have b: "lpName p < length h" "lpValue p < length h" by auto
    then have "fst ?r ! lpName p = ?h0 ! lpName p" "fst ?r ! lpValue p = ?h0 ! lpValue p"
      by (simp_all add: rangeLabels_other_cells)
    with b show ?thesis by (simp add: nth_append)
  qed
  have "labelsOf (fst ?r) (m\<lparr>Label := snd ?r\<rparr>) =
        map (\<lambda>p. (fst ?r ! lpName p, fst ?r ! lpValue p)) (Label m) @
        replicate (length kvs) (fst ?r ! ?pn, fst ?r ! ?pv)"
    by (simp add: labelsOf_def rangeLabels_pairs map_replicate)
  also have "map (\<lambda>p. (fst ?r ! lpName p, fst ?r ! lpValue p)) (Label m) = labelsOf h m"
    unfolding labelsOf_def using old by (intro map_cong) auto
  also have "(fst ?r ! ?pn, fst ?r ! ?pv) = last kvs"
    using cells by simp
  finally show ?thesis by (simp add: res)
qed

text \<open>
  C1.  The claim: injection leaves on each sample its original pairs followed by one pair
  per entry of the target's label set, each carrying that entry's own name and value.
  Evaluated on the family \<open>up\<close> with one sample labelled \<open>job="api"\<close> and the label set
  \<open>{env: prod, region: us}\<close>: in either visiting order both appended pairs read the entry
  visited last, so the entry visited first is on the sample in neither.
\<close>

theorem addLabels_two_entries_alias:
  "labelsAfter visitAsListed [''job'', ''api'']
     (Some [(''up'', exampleFamily [\<lparr>lpName = 0, lpValue = 1\<rparr>])])
     [(''env'', ''prod''), (''region'', ''us'')]
   = [(''up'', [[(''job'', ''api''), (''region'', ''us''), (''region'', ''us'')]])]
   \<and> labelsAfter visitReversed [''job'', ''api'']
     (Some [(''up'', exampleFamily [\<lparr>lpName = 0, lpValue = 1\<rparr>])])
     [(''env'', ''prod''), (''region'', ''us'')]
   = [(''up'', [[(''job'', ''api''), (''env'', ''prod''), (''env'', ''prod'')]])]"
  by (simp add: labelsAfter_def addLabels_def addLabelsMetric_def familyLabels_def labelsOf_def
      rangeOf_def exampleFamily_def visitAsListed_def visitReversed_def)

text \<open>
  C2.  The claim: the multiset of (name, value) pairs on a sample after injection is the
  same for every visiting order of the label set.  Evaluated on the family \<open>up\<close> with one
  sample without labels and the label set \<open>{env: prod, region: us}\<close>: the two visiting
  orders leave different multisets of pairs on the sample.
\<close>

theorem addLabels_order_dependent:
  "map (\<lambda>e. map mset (snd e))
     (labelsAfter visitAsListed [] (Some [(''up'', exampleFamily [])])
        [(''env'', ''prod''), (''region'', ''us'')])
   \<noteq> map (\<lambda>e. map mset (snd e))
     (labelsAfter visitReversed [] (Some [(''up'', exampleFamily [])])
        [(''env'', ''prod''), (''region'', ''us'')])"
  (is "?a \<noteq> ?b")
proof
  assume eq: "?a = ?b"
  have a: "?a = [[{#(''region'', ''us''), (''region'', ''us'')#}]]"
    by (simp add: labelsAfter_def addLabels_def addLabelsMetric_def familyLabels_def labelsOf_def
        rangeOf_def exampleFamily_def visitAsListed_def)
  have b: "?b = [[{#(''env'', ''prod''), (''env'', ''prod'')#}]]"
    by (simp add: labelsAfter_def addLabels_def addLabelsMetric_def familyLabels_def labelsOf_def
        rangeOf_def exampleFamily_def visitReversed_def)
  from eq a b
  have "{#(''region'', ''us''), (''region'', ''us'')#} = {#(''env'', ''prod''), (''env'', ''prod'')#}"
    by simp
  then have "set_mset {#(''region'', ''us''), (''region'', ''us'')#}
           = set_mset {#(''env'', ''prod''), (''env'', ''prod'')#}"
    by (rule arg_cong)
  then show False by simp
qed

section \<open>Properties of aggregation\<close>

lemma keyed_Cons:
  "keyed (e # fs) \<longleftrightarrow> Name (snd e) = fst e \<and> fst e \<notin> fst ` set fs \<and> keyed fs"
  by (auto simp: keyed_def)

lemma samplesOf_absent: "n \<notin> fst ` set fs \<Longrightarrow> samplesOf fs n = []"
  by (simp add: samplesOf_def map_of_eq_None_iff [THEN iffD2])

lemma mergeFamily_lookup:
  "Name (snd e) = fst e \<Longrightarrow>
   map_of (mergeFamily acc e) =
     (map_of acc)(fst e \<mapsto> (case map_of acc (fst e) of
                                Some amf \<Rightarrow> amf\<lparr>Metric := Metric amf @ Metric (snd e)\<rparr>
                              | None \<Rightarrow> snd e))"
  by (simp add: mergeFamily_def AList.update_conv' split: option.split)

lemma foldl_mergeFamily_hit:
  "keyed fs \<Longrightarrow> map_of acc n = Some amf \<Longrightarrow>
   map_of (foldl mergeFamily acc fs) n = Some (amf\<lparr>Metric := Metric amf @ samplesOf fs n\<rparr>)"
proof (induction fs arbitrary: acc amf)
  case Nil
  then show ?case by (simp add: samplesOf_def)
next
  case (Cons e fs)
  from Cons.prems(1) have e: "Name (snd e) = fst e" and fresh: "fst e \<notin> fst ` set fs" and k: "keyed fs"
    by (simp_all add: keyed_Cons)
  show ?case
  proof (cases "fst e = n")
    case True
    with Cons.prems(2) e
    have "map_of (mergeFamily acc e) n = Some (amf\<lparr>Metric := Metric amf @ Metric (snd e)\<rparr>)"
      by (simp add: mergeFamily_lookup)
    from Cons.IH [OF k this] True fresh show ?thesis
      by (cases e) (simp add: samplesOf_absent, simp add: samplesOf_def)
  next
    case False
    with Cons.prems(2) e have "map_of (mergeFamily acc e) n = Some amf"
      by (simp add: mergeFamily_lookup)
    from Cons.IH [OF k this] False show ?thesis
      by (cases e) (simp add: samplesOf_def)
  qed
qed

lemma foldl_mergeFamily_miss:
  "keyed fs \<Longrightarrow> map_of acc n = None \<Longrightarrow> map_of (foldl mergeFamily acc fs) n = map_of fs n"
proof (induction fs arbitrary: acc)
  case Nil
  then show ?case by simp
next
  case (Cons e fs)
  from Cons.prems(1) have e: "Name (snd e) = fst e" and fresh: "fst e \<notin> fst ` set fs" and k: "keyed fs"
    by (simp_all add: keyed_Cons)
  show ?case
  proof (cases "fst e = n")
    case True
    with Cons.prems(2) e have "map_of (mergeFamily acc e) n = Some (snd e)"
      by (simp add: mergeFamily_lookup)
    from foldl_mergeFamily_hit [OF k this] True fresh show ?thesis
      by (cases e) (simp add: samplesOf_absent)
  next
    case False
    with Cons.prems(2) e have "map_of (mergeFamily acc e) n = None"
      by (simp add: mergeFamily_lookup)
    from Cons.IH [OF k this] False show ?thesis by (cases e) simp
  qed
qed


lemma mergeResult_hit:
  "wfResult r \<Longrightarrow> map_of acc n = Some amf \<Longrightarrow>
   map_of (mergeResult acc r) n = Some (amf\<lparr>Metric := Metric amf @ samplesOf (rangeOf r) n\<rparr>)"
  by (simp add: mergeResult_def wfResult_def foldl_mergeFamily_hit)

lemma mergeResult_miss:
  "wfResult r \<Longrightarrow> map_of acc n = None \<Longrightarrow> map_of (mergeResult acc r) n = map_of (rangeOf r) n"
  by (simp add: mergeResult_def wfResult_def foldl_mergeFamily_miss)

lemma foldl_mergeResult_hit:
  "list_all wfResult rs \<Longrightarrow> map_of acc n = Some amf \<Longrightarrow>
   map_of (foldl mergeResult acc rs) n =
     Some (amf\<lparr>Metric := Metric amf @ concat (map (\<lambda>r. samplesOf (rangeOf r) n) rs)\<rparr>)"
proof (induction rs arbitrary: acc amf)
  case Nil
  then show ?case by simp
next
  case (Cons r rs)
  from Cons.prems(1) have r: "wfResult r" and rs: "list_all wfResult rs" by simp_all
  from Cons.IH [OF rs mergeResult_hit [OF r Cons.prems(2)]] show ?case by simp
qed

lemma foldl_mergeResult_miss:
  "list_all wfResult rs \<Longrightarrow> map_of acc n = None \<Longrightarrow>
   list_all (\<lambda>r. map_of (rangeOf r) n = None) rs \<Longrightarrow>
   map_of (foldl mergeResult acc rs) n = None"
proof (induction rs arbitrary: acc)
  case Nil
  then show ?case by simp
next
  case (Cons r rs)
  from Cons.prems have "map_of (mergeResult acc r) n = None"
    by (simp add: mergeResult_miss)
  with Cons.IH Cons.prems show ?case by simp
qed

lemma foldl_mergeResult_samples:
  "list_all wfResult rs \<Longrightarrow> map_of acc n = None \<Longrightarrow>
   samplesOf (foldl mergeResult acc rs) n = concat (map (\<lambda>r. samplesOf (rangeOf r) n) rs)"
proof (induction rs arbitrary: acc)
  case Nil
  then show ?case by (simp add: samplesOf_def)
next
  case (Cons r rs)
  from Cons.prems(1) have r: "wfResult r" and rs: "list_all wfResult rs" by simp_all
  have step: "map_of (mergeResult acc r) n = map_of (rangeOf r) n"
    using r Cons.prems(2) by (rule mergeResult_miss)
  show ?case
  proof (cases "map_of (rangeOf r) n")
    case None
    with step Cons.IH [OF rs, of "mergeResult acc r"] show ?thesis
      by (simp add: samplesOf_def)
  next
    case (Some mf)
    with step have "map_of (mergeResult acc r) n = Some mf" by simp
    from foldl_mergeResult_hit [OF rs this] Some show ?thesis
      by (simp add: samplesOf_def)
  qed
qed

lemma aggregate_samples:
  "list_all wfResult rs \<Longrightarrow>
   samplesOf (aggregate rs) n = concat (map (\<lambda>r. samplesOf (rangeOf r) n) rs)"
  by (simp add: aggregate_def foldl_mergeResult_samples)

text \<open>
  C4.  For every family name and every sequence of received results as the decoder builds
  them (distinct keys, every family under its own name; nil for a failed fetch), the
  number of samples stored under the name in the merged result is the sum, over the
  results, of the number of samples each holds under that name.
\<close>

theorem aggregate_sample_count:
  assumes "list_all wfResult received"
  shows "sampleCount (aggregate received) n =
         sum_list (map (\<lambda>r. sampleCount (rangeOf r) n) received)"
  using assms by (simp add: sampleCount_def aggregate_samples length_concat comp_def)

text \<open>
  C7.  When \<open>r\<close> is the first received result that holds the name \<open>n\<close>, with family
  \<open>mf\<close>, the merged family under \<open>n\<close> is \<open>mf\<close> itself (name, help text and type tag)
  with the samples of the later results appended in the order received; no field but the
  samples of a later copy reaches the merged family, whatever its help text and type.
\<close>

theorem aggregate_first_metadata:
  assumes "list_all wfResult (pre @ r # post)"
    and "list_all (\<lambda>p. map_of (rangeOf p) n = None) pre"
    and "map_of (rangeOf r) n = Some mf"
  shows "map_of (aggregate (pre @ r # post)) n =
         Some (mf\<lparr>Metric := Metric mf @ concat (map (\<lambda>p. samplesOf (rangeOf p) n) post)\<rparr>)"
proof -
  from assms(1) have pre: "list_all wfResult pre" and r: "wfResult r" and post: "list_all wfResult post"
    by simp_all
  have "map_of (foldl mergeResult [] pre) n = None"
    using pre _ assms(2) by (rule foldl_mergeResult_miss) simp
  then have "map_of (mergeResult (foldl mergeResult [] pre) r) n = Some mf"
    using r assms(3) by (simp add: mergeResult_miss)
  from foldl_mergeResult_hit [OF post this] show ?thesis
    by (simp add: aggregate_def)
qed

lemma mergeFamily_keyed: "keyed acc \<Longrightarrow> keyed (mergeFamily acc e)"
proof -
  assume k: "keyed acc"
  have upd: "keyed (AList.update k v acc)" if "Name v = k" for k v
    using k that unfolding keyed_def
    by (induction acc) (auto simp: AList.distinct_update AList.dom_update image_iff)
  show ?thesis
  proof (cases "map_of acc (fst e)")
    case None
    then show ?thesis by (simp add: mergeFamily_def upd)
  next
    case (Some amf)
    then have "(fst e, amf) \<in> set acc" by (rule map_of_SomeD)
    with k have "Name amf = fst e" by (auto simp: keyed_def list_all_iff)
    with Some show ?thesis by (simp add: mergeFamily_def upd)
  qed
qed

lemma aggregate_keyed: "keyed (aggregate rs)"
proof -
  have f: "keyed (foldl mergeFamily acc fs)" if "keyed acc" for acc fs
    using that by (induction fs arbitrary: acc) (simp_all add: mergeFamily_keyed)
  have "keyed (foldl mergeResult acc rs)" if "keyed acc" for acc
    using that by (induction rs arbitrary: acc) (simp_all add: mergeResult_def f)
  then show ?thesis by (simp add: aggregate_def keyed_def)
qed

section \<open>Properties of serialization, the handler and fetching\<close>










lemma encodeLoop_rejected:
  "list_all (accepted enc) pre \<Longrightarrow> enc mf = (bs, Some e) \<Longrightarrow>
   encodeLoop enc (pre @ mf # post) = (map (\<lambda>p. (p, fst (enc p))) pre @ [(mf, bs)], Some e)"
proof (induction pre)
  case Nil
  then show ?case by simp
next
  case (Cons p pre)
  obtain bs' r where e: "enc p = (bs', r)" by (cases "enc p")
  with Cons.prems have "r = None" by (simp add: accepted_def)
  with e Cons show ?case by simp
qed





text \<open>
  C8.  When the sorted families are \<open>pre\<close>, then \<open>mf\<close>, then \<open>post\<close>, the encoder accepts
  those of \<open>pre\<close> and rejects \<open>mf\<close> with error \<open>e\<close> after writing \<open>bs\<close>:
  \<^verbatim>\<open>serializeMetrics\<close> has called the encoder on \<open>pre\<close> and \<open>mf\<close> only and returns \<open>e\<close>;
  the handler logs it, the status stays 200 and the body is what was written so far.
\<close>

theorem serializeMetrics_first_error:
  assumes "sort_key Name (map snd (aggregate received)) = pre @ mf # post"
    and "list_all (accepted enc) pre"
    and "enc mf = (bs, Some e)"
  shows "serializeMetrics enc (aggregate received) =
           (map (\<lambda>p. (p, fst (enc p))) pre @ [(mf, bs)], Some e)
       \<and> handleMetrics enc received =
           \<lparr>status = 200,
            body = concat (map (\<lambda>p. fst (enc p)) pre) @ bs,
            logged = [''failed to serialize metrics: '' @ e]\<rparr>"
proof -
  have s: "serializeMetrics enc (aggregate received) =
           (map (\<lambda>p. (p, fst (enc p))) pre @ [(mf, bs)], Some e)"
    unfolding serializeMetrics_def assms(1) using assms(2,3) by (rule encodeLoop_rejected)
  then show ?thesis by (simp add: handleMetrics_def respond_def comp_def)
qed

lemma aggregate_replicate_nil: "aggregate (replicate n None) = []"
proof -
  have "foldl mergeResult acc (replicate n None) = acc" for acc
    by (induction n) (simp_all add: mergeResult_def rangeOf_def)
  then show ?thesis by (simp add: aggregate_def)
qed

text \<open>
  C10.  When every received result is the nil map: \<^verbatim>\<open>addLabels\<close> on a nil map changes
  nothing, the merged result is empty, the serializer encodes nothing and returns no
  error, and the reply has status 200, an empty body and nothing logged by the handler.
\<close>

theorem all_results_nil:
  "addLabels vis h None labels = (h, None)
   \<and> aggregate (replicate n None) = []
   \<and> serializeMetrics enc (aggregate (replicate n None)) = ([], None)
   \<and> handleMetrics enc (replicate n None) = \<lparr>status = 200, body = [], logged = []\<rparr>"
  by (simp add: aggregate_replicate_nil addLabels_def handleMetrics_def respond_def serializeMetrics_def)

lemma aggregate_skip_nil: "aggregate (before @ None # after) = aggregate (before @ after)"
  by (simp add: aggregate_def mergeResult_def rangeOf_def)


theorem aggregate_sample_count_witness:
  "list_all wfResult [Some [(''up'', exampleFamily [])], None, Some [(''up'', exampleFamily [])]]
   \<and> sampleCount (aggregate [Some [(''up'', exampleFamily [])], None, Some [(''up'', exampleFamily [])]]) ''up'' = 2"
proof -
  have h: "list_all wfResult [Some [(''up'', exampleFamily [])], None, Some [(''up'', exampleFamily [])]]"
    by (simp add: wfResult_def keyed_def rangeOf_def exampleFamily_def)
  from aggregate_sample_count [OF h, of "''up''"] h show ?thesis
    by (simp add: sampleCount_def samplesOf_def rangeOf_def exampleFamily_def)
qed

theorem aggregate_first_metadata_witness:
  "list_all wfResult ([None] @ Some [(''up'', exampleFamily [])]
      # [Some [(''up'', (exampleFamily [])\<lparr>Help := ''other'', Type := COUNTER\<rparr>)]])
   \<and> list_all (\<lambda>p. map_of (rangeOf p) ''up'' = None) [None]
   \<and> map_of (rangeOf (Some [(''up'', exampleFamily [])])) ''up'' = Some (exampleFamily [])
   \<and> map_of (aggregate ([None] @ Some [(''up'', exampleFamily [])]
      # [Some [(''up'', (exampleFamily [])\<lparr>Help := ''other'', Type := COUNTER\<rparr>)]])) ''up''
     = Some \<lparr>Name = ''up'', Help = '''', Type = UNTYPED,
             Metric = [\<lparr>Label = [], Sample = ''1''\<rparr>, \<lparr>Label = [], Sample = ''1''\<rparr>]\<rparr>"
proof -
  have h1: "list_all wfResult ([None] @ Some [(''up'', exampleFamily [])]
      # [Some [(''up'', (exampleFamily [])\<lparr>Help := ''other'', Type := COUNTER\<rparr>)]])"
    by (simp add: wfResult_def keyed_def rangeOf_def exampleFamily_def)
  have h2: "list_all (\<lambda>p. map_of (rangeOf p) ''up'' = None) [None]"
    by (simp add: rangeOf_def)
  have h3: "map_of (rangeOf (Some [(''up'', exampleFamily [])])) ''up'' = Some (exampleFamily [])"
    by (simp add: rangeOf_def)
  from aggregate_first_metadata [OF h1 h2 h3] h1 h2 h3 show ?thesis
    by (simp add: samplesOf_def rangeOf_def exampleFamily_def)
qed



theorem serializeMetrics_first_error_witness:
  "sort_key Name (map snd (aggregate
      [Some [(''zz'', (exampleFamily [])\<lparr>Name := ''zz''\<rparr>),
             (''up'', (exampleFamily [])\<lparr>Metric := []\<rparr>),
             (''go'', (exampleFamily [])\<lparr>Name := ''go''\<rparr>)]]))
     = [(exampleFamily [])\<lparr>Name := ''go''\<rparr>] @ (exampleFamily [])\<lparr>Metric := []\<rparr>
       # [(exampleFamily [])\<lparr>Name := ''zz''\<rparr>]
   \<and> list_all (accepted exampleEncoder) [(exampleFamily [])\<lparr>Name := ''go''\<rparr>]
   \<and> exampleEncoder ((exampleFamily [])\<lparr>Metric := []\<rparr>) = ([], Some ''MetricFamily has no metrics'')
   \<and> handleMetrics exampleEncoder
      [Some [(''zz'', (exampleFamily [])\<lparr>Name := ''zz''\<rparr>),
             (''up'', (exampleFamily [])\<lparr>Metric := []\<rparr>),
             (''go'', (exampleFamily [])\<lparr>Name := ''go''\<rparr>)]]
     = \<lparr>status = 200, body = ''go 1;'',
        logged = [''failed to serialize metrics: MetricFamily has no metrics'']\<rparr>"
proof -
  let ?rs = "[Some [(''zz'', (exampleFamily [])\<lparr>Name := ''zz''\<rparr>),
             (''up'', (exampleFamily [])\<lparr>Metric := []\<rparr>),
             (''go'', (exampleFamily [])\<lparr>Name := ''go''\<rparr>)]]"
  have h1: "sort_key Name (map snd (aggregate ?rs))
     = [(exampleFamily [])\<lparr>Name := ''go''\<rparr>] @ (exampleFamily [])\<lparr>Metric := []\<rparr>
       # [(exampleFamily [])\<lparr>Name := ''zz''\<rparr>]"
    by (simp add: aggregate_def mergeResult_def mergeFamily_def rangeOf_def exampleFamily_def)
  have h2: "list_all (accepted exampleEncoder) [(exampleFamily [])\<lparr>Name := ''go''\<rparr>]"
    by (simp add: accepted_def exampleEncoder_def exampleFamily_def)
  have h3: "exampleEncoder ((exampleFamily [])\<lparr>Metric := []\<rparr>) = ([], Some ''MetricFamily has no metrics'')"
    by (simp add: exampleEncoder_def)
  have e: "fst (exampleEncoder ((exampleFamily [])\<lparr>Name := ''go''\<rparr>)) = ''go 1;''"
    by (simp add: exampleEncoder_def exampleFamily_def)
  from serializeMetrics_first_error [OF h1 h2 h3] e
  have "handleMetrics exampleEncoder ?rs
     = \<lparr>status = 200, body = ''go 1;'',
        logged = [''failed to serialize metrics: MetricFamily has no metrics'']\<rparr>"
    by simp
  with h1 h2 h3 show ?thesis by blast
qed

section \<open>Properties of fan-out and fan-in\<close>


lemma sum_list_le_length:
  fixes xs :: "nat list"
  shows "\<forall>x \<in> set xs. x \<le> 1 \<Longrightarrow> sum_list xs \<le> length xs"
  by (induction xs) auto

lemma sum_list_bump:
  fixes xs :: "nat list"
  shows "i < length xs \<Longrightarrow> sum_list (xs[i := Suc (xs ! i)]) = Suc (sum_list xs)"
proof (induction xs arbitrary: i)
  case Nil
  then show ?case by simp
next
  case (Cons x xs)
  then show ?case by (cases i) simp_all
qed

lemma sum_list_lt_length:
  fixes xs :: "nat list"
  assumes "\<forall>i<length xs. xs ! i \<le> 1" and "j < length xs" and "xs ! j = 0"
  shows "sum_list xs < length xs"
proof -
  let ?ys = "xs[j := Suc (xs ! j)]"
  have "\<forall>x \<in> set ?ys. x \<le> 1"
  proof
    fix x assume "x \<in> set ?ys"
    then obtain i where i: "i < length xs" "x = ?ys ! i" by (auto simp: in_set_conv_nth)
    with assms show "x \<le> 1" by (cases "i = j") simp_all
  qed
  then have "sum_list ?ys \<le> length ?ys" by (rule sum_list_le_length)
  with assms(2) show ?thesis by (simp add: sum_list_bump)
qed

lemma consistent_initial: "consistent enc n (initial h n)"
  by (simp add: consistent_def initial_def)

lemma consistent_handlerStep:
  assumes "consistent enc n s" and "handlerStep enc n s = Some s'"
  shows "consistent enc n s'"
proof (cases "handler s")
  case (Starting k)
  show ?thesis
  proof (cases "k < n")
    case True
    with Starting assms(2) have s': "s' = s\<lparr>tasks := (tasks s)[k := Running], handler := Starting (Suc k)\<rparr>"
      by (simp add: handlerStep_def)
    from assms(1) Starting True have "tasks s ! k = Unstarted" by (simp add: consistent_def)
    with assms(1) Starting True show ?thesis
      unfolding s' consistent_def by (auto simp: nth_list_update)
  next
    case False
    with Starting assms(2) have s': "s' = s\<lparr>handler := Receiving 0 []\<rparr>"
      by (simp add: handlerStep_def)
    from assms(1) Starting False show ?thesis
      unfolding s' consistent_def by (auto simp: aggregate_def)
  qed
next
  case (Receiving k acc)
  show ?thesis
  proof (cases "k < n")
    case True
    with Receiving assms(2) obtain v rest where c: "chan s = v # rest"
      and s': "s' = s\<lparr>chan := rest, got := got s @ [v],
                      handler := Receiving (Suc k) (mergeResult acc v)\<rparr>"
      by (cases "chan s") (simp_all add: handlerStep_def)
    from assms(1) Receiving True c show ?thesis
      unfolding s' consistent_def by (auto simp: aggregate_def)
  next
    case False
    with Receiving assms(2)
    have s': "s' = s\<lparr>handler := Replied (respond enc acc),
                     lines := lines s @ logged (respond enc acc)\<rparr>"
      by (simp add: handlerStep_def)
    from assms(1) Receiving False show ?thesis
      unfolding s' consistent_def by (auto simp: handleMetrics_def)
  qed
next
  case (Replied r)
  with assms(2) show ?thesis by (simp add: handlerStep_def)
qed


lemma consistent_taskStep:
  assumes "consistent enc (length ts) s" and "taskStep dec vis ts i s = Some s'"
  shows "consistent enc (length ts) s'"
proof -
  from assms(2) have i: "i < length ts" by (simp add: taskStep_def split: if_splits)
  show ?thesis
  proof (cases "tasks s ! i")
    case Unstarted
    with assms(2) i show ?thesis by (simp add: taskStep_def)
  next
    case Running
    obtain h' lg v where f: "fetchTask dec vis (store s) (fst (ts ! i)) (snd (ts ! i)) = (h', lg, v)"
      by (cases "fetchTask dec vis (store s) (fst (ts ! i)) (snd (ts ! i))") auto
    with Running assms(2) i
    have s': "s' = s\<lparr>store := h', tasks := (tasks s)[i := Sending v], lines := lines s @ lg\<rparr>"
      by (simp add: taskStep_def)
    from assms(1) Running i show ?thesis
      unfolding s' consistent_def
      by (cases "handler s") (auto simp: nth_list_update)
  next
    case (Sending v)
    with assms(2) i
    have s': "s' = s\<lparr>chan := chan s @ [v], tasks := (tasks s)[i := Exited],
                     sent := (sent s)[i := Suc (sent s ! i)]\<rparr>"
      by (simp add: taskStep_def split: if_splits)
    from assms(1) Sending i have z: "sent s ! i = 0" by (simp add: consistent_def)
    from assms(1) i have "i < length (sent s)" by (simp add: consistent_def)
    then have sum: "sum_list ((sent s)[i := Suc (sent s ! i)]) = Suc (sum_list (sent s))"
      by (rule sum_list_bump)
    from assms(1) Sending i z sum show ?thesis
      unfolding s' consistent_def
      by (cases "handler s") (auto simp: nth_list_update)
  next
    case Exited
    with assms(2) i show ?thesis by (simp add: taskStep_def)
  qed
qed

lemma consistent_fire:
  "consistent enc (length ts) s \<Longrightarrow> fire dec vis enc ts th s = Some s' \<Longrightarrow>
   consistent enc (length ts) s'"
  by (cases th) (auto intro: consistent_handlerStep consistent_taskStep)

lemma consistent_exec:
  "consistent enc (length ts) s \<Longrightarrow> exec dec vis enc ts sched s = Some s' \<Longrightarrow>
   consistent enc (length ts) s'"
proof (induction sched arbitrary: s)
  case Nil
  then show ?case by simp
next
  case (Cons th sched)
  from Cons.prems(2) obtain s1 where f: "fire dec vis enc ts th s = Some s1"
    and e: "exec dec vis enc ts sched s1 = Some s'"
    by (auto split: option.splits)
  from Cons.IH [OF consistent_fire [OF Cons.prems(1) f] e] show ?case .
qed

lemma consistent_reachable:
  "exec dec vis enc ts sched (initial h (length ts)) = Some s \<Longrightarrow> consistent enc (length ts) s"
  using consistent_initial by (rule consistent_exec)

lemma consistent_sent_le:
  "consistent enc n s \<Longrightarrow> \<forall>i<length (sent s). sent s ! i \<le> 1"
  by (simp add: consistent_def)

lemma consistent_room:
  assumes "consistent enc n s" and "i < n" and "tasks s ! i = Sending v"
  shows "length (chan s) < capacity s"
proof -
  from assms have z: "sent s ! i = 0" and l: "i < length (sent s)"
    by (simp_all add: consistent_def)
  from consistent_sent_le [OF assms(1)] l z have "sum_list (sent s) < length (sent s)"
    by (rule sum_list_lt_length)
  with assms(1) show ?thesis by (simp add: consistent_def)
qed

text \<open>
  C9.  In every state a request over the targets \<open>ts\<close> can reach, the capacity of the
  channel is the number of targets, and a goroutine whose send is pending has not sent
  before and finds room in the buffer: its send is a step it can take at once, whatever
  the handler has received so far.
\<close>

theorem send_never_blocks:
  assumes "exec dec vis enc ts sched (initial h (length ts)) = Some s"
    and "i < length ts" and "tasks s ! i = Sending v"
  shows "capacity s = length ts \<and> sent s ! i = 0 \<and> length (chan s) < capacity s
       \<and> fire dec vis enc ts (TaskThread i) s =
           Some (s\<lparr>chan := chan s @ [v], tasks := (tasks s)[i := Exited],
                   sent := (sent s)[i := 1]\<rparr>)"
proof -
  from assms(1) have c: "consistent enc (length ts) s" by (rule consistent_reachable)
  from c assms(2,3) have room: "length (chan s) < capacity s" by (rule consistent_room)
  from c assms(2,3) have "capacity s = length ts" "sent s ! i = 0"
    by (simp_all add: consistent_def)
  with room assms(2,3) show ?thesis by (simp add: taskStep_def)
qed



lemmas run_simps = handlerStep_def taskStep_def initial_def fetchTask_def fetchMetrics_def
  exampleDecoder_def exampleEncoder_def exampleFamily_def exampleTargets_def visitAsListed_def
  addLabels_def addLabelsMetric_def rangeOf_def mergeResult_def mergeFamily_def respond_def
  serializeMetrics_def

theorem send_never_blocks_witness:
  "exec exampleDecoder visitAsListed exampleEncoder exampleTargets
     [HandlerThread, HandlerThread, HandlerThread, TaskThread 0]
     (initial [] (length exampleTargets)) = Some examplePending
   \<and> 0 < length exampleTargets
   \<and> tasks examplePending ! 0 = Sending (Some [(''up'', exampleFamily [\<lparr>lpName = 0, lpValue = 1\<rparr>])])
   \<and> capacity examplePending = length exampleTargets
   \<and> length (chan examplePending) < capacity examplePending
   \<and> fire exampleDecoder visitAsListed exampleEncoder exampleTargets (TaskThread 0) examplePending
       \<noteq> None"
proof -
  have h1: "exec exampleDecoder visitAsListed exampleEncoder exampleTargets
     [HandlerThread, HandlerThread, HandlerThread, TaskThread 0]
     (initial [] (length exampleTargets)) = Some examplePending"
    by (simp add: run_simps examplePending_def)
  have h2: "0 < length exampleTargets" by (simp add: exampleTargets_def)
  have h3: "tasks examplePending ! 0
      = Sending (Some [(''up'', exampleFamily [\<lparr>lpName = 0, lpValue = 1\<rparr>])])"
    by (simp add: examplePending_def)
  from send_never_blocks [OF h1 h2 h3] h1 h2 h3 show ?thesis by simp
qed



section \<open>Failed fetches\<close>










end
